theory Spec2Isabelle
  imports Main "HOL-Library.Word"
begin

section \<open>JavaScript strings\<close>

text \<open>
  A JavaScript string is a sequence of UTF-16 code units. Indexing (\<open>s[k]\<close>), \<open>length\<close>,
  \<open>slice\<close> and the regular expressions used here (none has the \<open>u\<close> flag) all work on
  code units, so a string is a list of 16-bit words. \<open>jsc\<close> writes an ASCII character
  and \<open>js\<close> an ASCII literal.
\<close>

type_synonym jschar = "16 word"
type_synonym jsstring = "jschar list"

definition jsc :: "char \<Rightarrow> jschar" where
  "jsc c = of_char c"

definition js :: "string \<Rightarrow> jsstring" where
  "js s = map jsc s"

definition colon :: jschar where
  "colon = 0x3A"

definition slash :: jschar where
  "slash = 0x2F"

text \<open>
  \<open>s[k]\<close>: the code unit at index \<open>k\<close>, or \<open>undefined\<close> (here \<open>None\<close>) when \<open>k\<close> is
  outside the string; JavaScript does not throw there.
\<close>

definition charAt :: "jsstring \<Rightarrow> int \<Rightarrow> jschar option" where
  "charAt s k = (if 0 \<le> k \<and> k < int (length s) then Some (s ! nat k) else None)"

text \<open>
  The regular expression \<open>/\s/\<close>: the WhiteSpace and LineTerminator code points of
  ECMAScript. \<open>trim\<close>, \<open>trimStart\<close> and \<open>trimEnd\<close> strip the same set.
\<close>

definition isWhitespace :: "jschar \<Rightarrow> bool" where
  "isWhitespace c \<longleftrightarrow>
     c \<in> {0x09, 0x0A, 0x0B, 0x0C, 0x0D, 0x20, 0xA0, 0x1680,
          0x2028, 0x2029, 0x202F, 0x205F, 0x3000, 0xFEFF}
     \<or> (0x2000 \<le> unat c \<and> unat c \<le> 0x200A)"

text \<open>The regular expression \<open>/[a-zA-Z_]/\<close>.\<close>

definition isIdentifierChar :: "jschar \<Rightarrow> bool" where
  "isIdentifierChar c \<longleftrightarrow>
     (0x61 \<le> unat c \<and> unat c \<le> 0x7A) \<or> (0x41 \<le> unat c \<and> unat c \<le> 0x5A) \<or> c = 0x5F"

definition trimStart :: "jsstring \<Rightarrow> jsstring" where
  "trimStart s = dropWhile isWhitespace s"

definition trimEnd :: "jsstring \<Rightarrow> jsstring" where
  "trimEnd s = rev (dropWhile isWhitespace (rev s))"

definition trim :: "jsstring \<Rightarrow> jsstring" where
  "trim s = trimEnd (trimStart s)"

text \<open>\<open>s.search(/\s/)\<close>: the index of the first whitespace code unit, or \<open>-1\<close>.\<close>

definition search_ws :: "jsstring \<Rightarrow> int" where
  "search_ws s =
     (if \<exists>c \<in> set s. isWhitespace c then int (length (takeWhile (\<lambda>c. \<not> isWhitespace c) s))
      else - 1)"

text \<open>\<open>s.startsWith(':')\<close>.\<close>

definition startsWithColon :: "jsstring \<Rightarrow> bool" where
  "startsWithColon s = (case s of [] \<Rightarrow> False | c # _ \<Rightarrow> c = colon)"

text \<open>\<open>s.replace(/:+$/, '')\<close>: the string without its trailing colons.\<close>

definition stripTrailingColons :: "jsstring \<Rightarrow> jsstring" where
  "stripTrailingColons s = rev (dropWhile (\<lambda>c. c = colon) (rev s))"

text \<open>\<open>s.slice(k)\<close> and \<open>s.slice(0, k)\<close> for a number \<open>k\<close>; a negative \<open>k\<close> counts from the end.\<close>

definition sliceFrom :: "jsstring \<Rightarrow> int \<Rightarrow> jsstring" where
  "sliceFrom s k = (if k < 0 then drop (nat (int (length s) + k)) s else drop (nat k) s)"

definition sliceTo :: "jsstring \<Rightarrow> int \<Rightarrow> jsstring" where
  "sliceTo s k = (if k < 0 then take (nat (int (length s) + k)) s else take (nat k) s)"

section \<open>The macro context parser\<close>

text \<open>The entries of \<open>parts\<close> (\<open>{ text, start, end }\<close>) and of \<open>separatorPositions\<close>.\<close>

record part =
  part_text :: jsstring
  part_start :: nat
  part_end :: nat

record separator =
  sep_start :: nat
  sep_end :: nat

text \<open>
  \<open>while (i < macroText.length && /\s/.test(macroText[i])) i++\<close>: the loop that skips
  whitespace, before the flags and after each flag.
\<close>

function skipWhitespace :: "jsstring \<Rightarrow> nat \<Rightarrow> nat" where
  "skipWhitespace macroText i =
     (if i < length macroText \<and> isWhitespace (macroText ! i)
      then skipWhitespace macroText (Suc i) else i)"
  by pat_completeness auto
termination
  by (relation "measure (\<lambda>(t, i). length t - i)") auto

declare skipWhitespace.simps [simp del]

lemma skipWhitespace_ge: "i \<le> skipWhitespace t i"
proof (induction t i rule: skipWhitespace.induct)
  case (1 t i)
  then show ?case
    by (subst skipWhitespace.simps) (auto simp: Suc_leD)
qed

lemma skipWhitespace_le: "i \<le> length t \<Longrightarrow> skipWhitespace t i \<le> length t"
proof (induction t i rule: skipWhitespace.induct)
  case (1 t i)
  then show ?case
    by (subst skipWhitespace.simps) auto
qed

text \<open>
  The flag loop. \<open>ValidFlagSymbols\<close> is imported from \<open>MacroFlags.js\<close>, so it is a
  parameter: the set of code units that are flag symbols. The state of the loop is
  \<open>(i, flags, flagEndPositions)\<close>.
\<close>

function scanFlags ::
  "jschar set \<Rightarrow> jsstring \<Rightarrow> nat \<Rightarrow> jschar list \<Rightarrow> nat list \<Rightarrow> nat \<times> jschar list \<times> nat list" where
  "scanFlags ValidFlagSymbols macroText i flags flagEndPositions =
     (if i < length macroText then
        (if macroText ! i = slash \<and> i + 1 < length macroText
              \<and> isIdentifierChar (macroText ! (i + 1))
         then (i, flags, flagEndPositions)
         else if macroText ! i \<in> ValidFlagSymbols
         then scanFlags ValidFlagSymbols macroText (skipWhitespace macroText (i + 1))
                (flags @ [macroText ! i]) (flagEndPositions @ [i + 1])
         else (i, flags, flagEndPositions))
      else (i, flags, flagEndPositions))"
  by pat_completeness auto
termination
proof (relation "measure (\<lambda>(V, t, i, fl, en). length t - i)")
  show "wf (measure (\<lambda>(V, t, i, fl, en). length t - i))" by simp
next
  fix ValidFlagSymbols :: "jschar set" and macroText :: jsstring and i :: nat
    and flags :: "jschar list" and flagEndPositions :: "nat list"
  assume "i < length macroText"
  moreover have "i + 1 \<le> skipWhitespace macroText (i + 1)" by (rule skipWhitespace_ge)
  ultimately show "((ValidFlagSymbols, macroText, skipWhitespace macroText (i + 1),
      flags @ [macroText ! i], flagEndPositions @ [i + 1]),
      (ValidFlagSymbols, macroText, i, flags, flagEndPositions))
    \<in> measure (\<lambda>(V, t, i, fl, en). length t - i)"
    by simp
qed

declare scanFlags.simps [simp del]

text \<open>
  The segmentation loop over \<open>remainingText\<close>. \<open>i\<close> is the offset (in \<open>macroText\<close>) at which
  \<open>remainingText\<close> starts; the state is \<open>(j, currentPart, partStart, parts, separatorPositions)\<close>.
  \<open>remainingText[j + 1]\<close> is \<open>undefined\<close> at the last index, and \<open>undefined === ':'\<close> is false.
\<close>

function splitLoop ::
  "nat \<Rightarrow> jsstring \<Rightarrow> nat \<Rightarrow> jsstring \<Rightarrow> nat \<Rightarrow> part list \<Rightarrow> separator list
    \<Rightarrow> part list \<times> separator list \<times> jsstring \<times> nat" where
  "splitLoop i remainingText j currentPart partStart parts separatorPositions =
     (if j < length remainingText then
        (if charAt remainingText (int j) = Some colon
              \<and> charAt remainingText (int j + 1) = Some colon
         then splitLoop i remainingText (j + 2) [] (i + (j + 2))
                (parts @ [\<lparr>part_text = currentPart, part_start = partStart, part_end = i + j\<rparr>])
                (separatorPositions @ [\<lparr>sep_start = i + j, sep_end = i + j + 2\<rparr>])
         else splitLoop i remainingText (j + 1) (currentPart @ [remainingText ! j]) partStart
                parts separatorPositions)
      else (parts, separatorPositions, currentPart, partStart))"
  by pat_completeness auto
termination
  by (relation "measure (\<lambda>(i, r, j, c, ps, p, s). length r - j)") auto

declare splitLoop.simps [simp del]

text \<open>
  The loop \<open>for (sepIdx = 0; sepIdx < separatorPositions.length; sepIdx++)\<close> that finds the
  argument the cursor is in; the state is \<open>(sepIdx, currentArgIndex)\<close>.
\<close>

function findArgIndex :: "separator list \<Rightarrow> int \<Rightarrow> nat \<Rightarrow> int \<Rightarrow> int" where
  "findArgIndex separatorPositions cursorOffset sepIdx currentArgIndex =
     (if sepIdx < length separatorPositions then
        findArgIndex separatorPositions cursorOffset (sepIdx + 1)
          (if cursorOffset \<ge> int (sep_end (separatorPositions ! sepIdx))
           then int sepIdx else currentArgIndex)
      else currentArgIndex)"
  by pat_completeness auto
termination
  by (relation "measure (\<lambda>(s, c, k, a). length s - k)") auto

declare findArgIndex.simps [simp del]

text \<open>\<open>macroText.match(/^\s+/)?.[0] ?? ''\<close>: the leading run of whitespace.\<close>

definition leadingWhitespace :: "jsstring \<Rightarrow> jsstring" where
  "leadingWhitespace s = takeWhile isWhitespace s"

record MacroAutoCompleteContext =
  fullText :: jsstring
  cursorOffset :: int
  paddingBefore :: jsstring
  "identifier" :: jsstring
  identifierStart :: nat
  isInFlagsArea :: bool
  flags :: "jschar list"
  currentFlag :: "jschar option"
  args :: "jsstring list"
  currentArgIndex :: int
  isTypingSeparator :: bool
  hasSpaceAfterIdentifier :: bool
  hasSpaceArgContent :: bool
  separatorCount :: nat
  isInScopedContent :: "bool option"
  scopedMacroName :: "jsstring option"

text \<open>
  \<open>parseMacroContext(macroText, cursorOffset)\<close>. The cursor offset is an integer; the
  positions the scan computes are natural numbers (the offset is bound by a \<open>\<lambda>\<close> because
  \<open>cursorOffset\<close> is also a field of the context). The two optional fields of the context
  are not set by the parser.
\<close>

definition parseMacroContext :: "jschar set \<Rightarrow> jsstring \<Rightarrow> int \<Rightarrow> MacroAutoCompleteContext" where
  "parseMacroContext ValidFlagSymbols macroText = (\<lambda>cursorOffset.
     let (i, flags, flagEndPositions) =
           scanFlags ValidFlagSymbols macroText (skipWhitespace macroText 0) [] [];
         currentFlag =
           (if length flags > 0 \<and> cursorOffset \<ge> int (last flagEndPositions) - 1
            then Some (last flags) else None);
         remainingText = sliceFrom macroText (int i);
         (parts0, separatorPositions, currentPart, partStart) =
           splitLoop i remainingText 0 [] i [] [];
         parts = parts0 @
           [\<lparr>part_text = currentPart, part_start = partStart, part_end = length macroText\<rparr>];
         identifierStartPos = (case parts of [] \<Rightarrow> i | p # _ \<Rightarrow> part_start p);
         isInFlagsArea = (cursorOffset \<le> int identifierStartPos);
         isTypingSeparator =
           (length remainingText > 0
            \<and> cursorOffset > int identifierStartPos
            \<and> charAt macroText (cursorOffset - 1) = Some colon
            \<and> charAt macroText cursorOffset \<noteq> Some colon
            \<and> (cursorOffset < 2 \<or> charAt macroText (cursorOffset - 2) \<noteq> Some colon));
         firstPartText = (case parts of [] \<Rightarrow> [] | p # _ \<Rightarrow> part_text p);
         trimmedFirstPart = trimStart firstPartText;
         firstSpaceInIdentifier = search_ws trimmedFirstPart;
         (identifierOnly, spaceArgText, hasSpaceAfterIdentifier) =
           (if firstSpaceInIdentifier > 0 \<and> length separatorPositions = 0 then
              (let afterIdentifier = sliceFrom trimmedFirstPart firstSpaceInIdentifier;
                   contentAfterSpace = trimStart afterIdentifier
               in (sliceTo trimmedFirstPart firstSpaceInIdentifier,
                   (if length contentAfterSpace > 0 \<and> \<not> startsWithColon contentAfterSpace
                    then contentAfterSpace else []),
                   length afterIdentifier > 0))
            else (trimEnd trimmedFirstPart, [], False));
         identifierEndPos =
           identifierStartPos + (length firstPartText - length (trimStart firstPartText))
             + length identifierOnly;
         currentArgIndex0 =
           (if length separatorPositions > 0
            then findArgIndex separatorPositions cursorOffset 0 (- 1)
            else if length spaceArgText > 0
                    \<or> (hasSpaceAfterIdentifier \<and> cursorOffset > int identifierEndPos)
            then 0 else - 1);
         currentArgIndex = (if isTypingSeparator then - 1 else currentArgIndex0);
         leftPadding = leadingWhitespace macroText;
         cleanIdentifier = stripTrailingColons identifierOnly;
         args0 = map (\<lambda>p. trim (part_text p)) (drop 1 parts);
         args = (if length spaceArgText > 0 then spaceArgText # args0 else args0)
     in \<lparr>fullText = macroText,
         cursorOffset = cursorOffset,
         paddingBefore = leftPadding,
         identifier = cleanIdentifier,
         identifierStart = identifierStartPos,
         isInFlagsArea = isInFlagsArea,
         flags = flags,
         currentFlag = currentFlag,
         args = args,
         currentArgIndex = currentArgIndex,
         isTypingSeparator = isTypingSeparator,
         hasSpaceAfterIdentifier = hasSpaceAfterIdentifier,
         hasSpaceArgContent = (length spaceArgText > 0),
         separatorCount = length separatorPositions,
         isInScopedContent = None,
         scopedMacroName = None\<rparr>)"

section \<open>Descriptions used in the statements\<close>

text \<open>
  The invariant of the flag loop: the flags consumed so far and the positions recorded after
  them. Every consumed flag is a flag symbol of the text, and none is a \<open>/\<close> that is
  followed by an identifier character.
\<close>

definition flagInv :: "jschar set \<Rightarrow> jsstring \<Rightarrow> nat \<Rightarrow> jschar list \<Rightarrow> nat list \<Rightarrow> bool" where
  "flagInv V t i fl en \<longleftrightarrow>
     length en = length fl \<and>
     (\<forall>k < length fl. 0 < en ! k \<and> en ! k \<le> i \<and> en ! k \<le> length t
        \<and> fl ! k = t ! (en ! k - 1) \<and> fl ! k \<in> V
        \<and> \<not> (fl ! k = slash \<and> en ! k < length t \<and> isIdentifierChar (t ! (en ! k))))"

text \<open>
  Segmentation as the specification describes it: the text is scanned from the left for the
  two-character token \<open>::\<close>; each occurrence closes the current segment and opens a new one.
  \<open>cur\<close> is the segment being read.
\<close>

fun splitOnSep :: "jsstring \<Rightarrow> jsstring \<Rightarrow> jsstring list" where
  "splitOnSep cur [] = [cur]"
| "splitOnSep cur [x] = [cur @ [x]]"
| "splitOnSep cur (x # y # zs) =
     (if x = colon \<and> y = colon then cur # splitOnSep [] zs
      else splitOnSep (cur @ [x]) (y # zs))"

text \<open>
  The space-syntax argument of a first segment: the text after the identifier, without its
  leading whitespace.
\<close>

definition spaceArgOf :: "jsstring \<Rightarrow> jsstring" where
  "spaceArgOf first = trimStart (dropWhile (\<lambda>c. \<not> isWhitespace c) (trimStart first))"

text \<open>
  The block of the parser that splits the first segment into the identifier and the
  space-syntax argument, as a function of the segment and of whether no separator was found:
  it returns \<open>(identifierOnly, spaceArgText, hasSpaceAfterIdentifier)\<close>.
\<close>

definition identifierSplit :: "jsstring \<Rightarrow> bool \<Rightarrow> jsstring \<times> jsstring \<times> bool" where
  "identifierSplit firstPartText noSeparators =
     (let trimmedFirstPart = trimStart firstPartText;
          firstSpaceInIdentifier = search_ws trimmedFirstPart
      in if firstSpaceInIdentifier > 0 \<and> noSeparators then
           (let afterIdentifier = sliceFrom trimmedFirstPart firstSpaceInIdentifier;
                contentAfterSpace = trimStart afterIdentifier
            in (sliceTo trimmedFirstPart firstSpaceInIdentifier,
                (if length contentAfterSpace > 0 \<and> \<not> startsWithColon contentAfterSpace
                 then contentAfterSpace else []),
                length afterIdentifier > 0))
         else (trimEnd trimmedFirstPart, [], False))"

section \<open>Properties of the loops\<close>

lemma sliceFrom_int: "sliceFrom s (int n) = drop n s"
  by (simp add: sliceFrom_def)

lemma charAt_int: "charAt s (int j) = (if j < length s then Some (s ! j) else None)"
  by (simp add: charAt_def)

lemma charAt_int_Suc: "charAt s (int j + 1) = (if Suc j < length s then Some (s ! Suc j) else None)"
  using charAt_int [of s "Suc j"] by (simp add: add.commute)

lemma flagInv_step:
  assumes "flagInv V t i fl en" "i < length t" "t ! i \<in> V"
    "\<not> (t ! i = slash \<and> i + 1 < length t \<and> isIdentifierChar (t ! (i + 1)))"
    "i + 1 \<le> i'"
  shows "flagInv V t i' (fl @ [t ! i]) (en @ [i + 1])"
  using assms unfolding flagInv_def
  by (auto simp: nth_append less_Suc_eq)

lemma scanFlags_inv:
  "flagInv V t i fl en \<Longrightarrow> scanFlags V t i fl en = (i', fl', en') \<Longrightarrow> flagInv V t i' fl' en' \<and> i \<le> i'"
proof (induction V t i fl en rule: scanFlags.induct)
  case (1 V t i fl en)
  show ?case
  proof (cases "i < length t \<and> \<not> (t ! i = slash \<and> i + 1 < length t \<and> isIdentifierChar (t ! (i + 1))) \<and> t ! i \<in> V")
    case True
    have ge: "i + 1 \<le> skipWhitespace t (i + 1)" by (rule skipWhitespace_ge)
    have inv': "flagInv V t (skipWhitespace t (i + 1)) (fl @ [t ! i]) (en @ [i + 1])"
      using flagInv_step [OF "1.prems"(1) _ _ _ ge] True by blast
    have eq: "scanFlags V t (skipWhitespace t (i + 1)) (fl @ [t ! i]) (en @ [i + 1]) = (i', fl', en')"
      using "1.prems"(2) True by (subst (asm) scanFlags.simps) auto
    have "flagInv V t i' fl' en' \<and> skipWhitespace t (i + 1) \<le> i'"
      using "1.IH" [OF _ _ _ inv' eq] True by blast
    with ge show ?thesis by linarith
  next
    case False
    then have "scanFlags V t i fl en = (i, fl, en)"
      by (subst scanFlags.simps) auto
    with "1.prems" show ?thesis by simp
  qed
qed

lemma scanFlags_le:
  "i \<le> length t \<Longrightarrow> scanFlags V t i fl en = (i', fl', en') \<Longrightarrow> i' \<le> length t"
proof (induction V t i fl en rule: scanFlags.induct)
  case (1 V t i fl en)
  show ?case
  proof (cases "i < length t \<and> \<not> (t ! i = slash \<and> i + 1 < length t \<and> isIdentifierChar (t ! (i + 1))) \<and> t ! i \<in> V")
    case True
    have le: "skipWhitespace t (i + 1) \<le> length t"
      using True by (intro skipWhitespace_le) simp
    have eq: "scanFlags V t (skipWhitespace t (i + 1)) (fl @ [t ! i]) (en @ [i + 1]) = (i', fl', en')"
      using "1.prems"(2) True by (subst (asm) scanFlags.simps) auto
    show ?thesis using "1.IH" [OF _ _ _ le eq] True by blast
  next
    case False
    then have "scanFlags V t i fl en = (i, fl, en)"
      by (subst scanFlags.simps) auto
    with "1.prems" show ?thesis by simp
  qed
qed

lemma scanFlags_not_flag:
  "i < length t \<Longrightarrow> t ! i \<notin> V \<Longrightarrow> scanFlags V t i fl en = (i, fl, en)"
  by (subst scanFlags.simps) simp

lemma scanFlags_end: "length t \<le> i \<Longrightarrow> scanFlags V t i fl en = (i, fl, en)"
  by (subst scanFlags.simps) simp

lemma splitOnSep_nonempty: "splitOnSep cur r \<noteq> []"
  by (induction cur r rule: splitOnSep.induct) auto

lemma splitOnSep_single: "length (splitOnSep cur r) = 1 \<Longrightarrow> splitOnSep cur r = [cur @ r]"
  by (induction cur r rule: splitOnSep.induct) (auto simp: splitOnSep_nonempty split: if_splits)

lemma drop_two:
  assumes "Suc j < length r"
  shows "drop j r = r ! j # r ! Suc j # drop (j + 2) r"
proof -
  have "drop j r = r ! j # drop (Suc j) r"
    using assms by (simp add: Cons_nth_drop_Suc)
  moreover have "drop (Suc j) r = r ! Suc j # drop (Suc (Suc j)) r"
    using assms by (simp add: Cons_nth_drop_Suc)
  ultimately show ?thesis by simp
qed

lemma drop_last_one:
  assumes "j < length r" "\<not> Suc j < length r"
  shows "drop j r = [r ! j]"
proof -
  have "drop j r = r ! j # drop (Suc j) r"
    using assms(1) by (rule Cons_nth_drop_Suc [symmetric])
  moreover have "drop (Suc j) r = []"
    using assms by simp
  ultimately show ?thesis by simp
qed

lemma splitOnSep_step_sep:
  assumes "j < length r" "charAt r (int j) = Some colon" "charAt r (int j + 1) = Some colon"
  shows "splitOnSep cur (drop j r) = cur # splitOnSep [] (drop (j + 2) r)"
proof -
  from assms have s: "Suc j < length r" "r ! j = colon" "r ! Suc j = colon"
    by (auto simp: charAt_int charAt_int_Suc split: if_splits)
  show ?thesis by (simp add: drop_two [OF s(1)] s)
qed

lemma splitOnSep_step_char:
  assumes "j < length r"
    "\<not> (charAt r (int j) = Some colon \<and> charAt r (int j + 1) = Some colon)"
  shows "splitOnSep cur (drop j r) = splitOnSep (cur @ [r ! j]) (drop (j + 1) r)"
proof (cases "Suc j < length r")
  case True
  with assms have "\<not> (r ! j = colon \<and> r ! Suc j = colon)"
    by (auto simp: charAt_int charAt_int_Suc)
  moreover have "drop (j + 1) r = r ! Suc j # drop (j + 2) r"
    using True by (simp add: Cons_nth_drop_Suc)
  ultimately show ?thesis by (auto simp: drop_two [OF True])
next
  case False
  with assms show ?thesis by (simp add: drop_last_one)
qed

lemma splitLoop_texts:
  "splitLoop i r j cur ps parts seps = (P, S, c, s) \<Longrightarrow>
   map part_text P @ [c] = map part_text parts @ splitOnSep cur (drop j r)
   \<and> length S + 1 = length seps + length (splitOnSep cur (drop j r))
   \<and> length P + length seps = length S + length parts
   \<and> part_start (hd (P @ [\<lparr>part_text = c, part_start = s, part_end = e\<rparr>]))
       = part_start (hd (parts @ [\<lparr>part_text = cur, part_start = ps, part_end = e\<rparr>]))"
proof (induction i r j cur ps parts seps rule: splitLoop.induct)
  case (1 i r j cur ps parts seps)
  show ?case
  proof (cases "j < length r")
    case False
    then have "splitLoop i r j cur ps parts seps = (parts, seps, cur, ps)"
      by (subst splitLoop.simps) simp
    with "1.prems" False show ?thesis by simp
  next
    case True
    show ?thesis
    proof (cases "charAt r (int j) = Some colon \<and> charAt r (int j + 1) = Some colon")
      case sep: True
      let ?parts = "parts @ [\<lparr>part_text = cur, part_start = ps, part_end = i + j\<rparr>]"
      let ?seps = "seps @ [\<lparr>sep_start = i + j, sep_end = i + j + 2\<rparr>]"
      have eq: "splitLoop i r (j + 2) [] (i + (j + 2)) ?parts ?seps = (P, S, c, s)"
        using "1.prems" True sep by (subst (asm) splitLoop.simps) simp
      note ih = "1.IH"(1) [OF True sep eq]
      have st: "splitOnSep cur (drop j r) = cur # splitOnSep [] (drop (j + 2) r)"
        using splitOnSep_step_sep [OF True] sep by blast
      show ?thesis using ih by (simp add: st hd_append)
    next
      case nosep: False
      have eq: "splitLoop i r (j + 1) (cur @ [r ! j]) ps parts seps = (P, S, c, s)"
        using "1.prems" True nosep by (subst (asm) splitLoop.simps) auto
      note ih = "1.IH"(2) [OF True nosep eq]
      have st: "splitOnSep cur (drop j r) = splitOnSep (cur @ [r ! j]) (drop (j + 1) r)"
        by (rule splitOnSep_step_char [OF True nosep])
      show ?thesis using ih by (simp add: st hd_append)
    qed
  qed
qed

lemma search_ws_trimStart:
  "0 < search_ws (trimStart x) \<longleftrightarrow> (\<exists>c \<in> set (trimStart x). isWhitespace c)"
proof (cases "trimStart x")
  case Nil
  then show ?thesis by (simp add: search_ws_def)
next
  case (Cons a as)
  then have "\<not> isWhitespace a"
    unfolding trimStart_def by (metis hd_dropWhile list.distinct(1) list.sel(1))
  with Cons show ?thesis by (simp add: search_ws_def)
qed

lemma sliceFrom_search_ws:
  "0 < search_ws s \<Longrightarrow> sliceFrom s (search_ws s) = dropWhile (\<lambda>c. \<not> isWhitespace c) s"
  by (auto simp: search_ws_def sliceFrom_def dropWhile_eq_drop split: if_splits)

lemma sliceTo_search_ws:
  "0 < search_ws s \<Longrightarrow> sliceTo s (search_ws s) = takeWhile (\<lambda>c. \<not> isWhitespace c) s"
  by (auto simp: search_ws_def sliceTo_def takeWhile_eq_take [symmetric] split: if_splits)

lemma dropWhile_not_ws_nonempty:
  "\<exists>c \<in> set s. isWhitespace c \<Longrightarrow> dropWhile (\<lambda>c. \<not> isWhitespace c) s \<noteq> []"
  by (auto simp: dropWhile_eq_Nil_conv)

lemma findArgIndex_bounds:
  "- 1 \<le> a \<Longrightarrow> a \<le> int (length seps) - 1 \<Longrightarrow>
   - 1 \<le> findArgIndex seps c k a \<and> findArgIndex seps c k a \<le> int (length seps) - 1"
proof (induction seps c k a rule: findArgIndex.induct)
  case (1 seps c k a)
  show ?case
  proof (cases "k < length seps")
    case True
    let ?a = "if c \<ge> int (sep_end (seps ! k)) then int k else a"
    have "- 1 \<le> ?a" "?a \<le> int (length seps) - 1"
      using "1.prems" True by auto
    from "1.IH" [OF True this] True show ?thesis
      by (simp add: findArgIndex.simps [of seps c k a])
  next
    case False
    with "1.prems" show ?thesis by (simp add: findArgIndex.simps [of seps c k a])
  qed
qed

lemma case_list_snoc:
  "(case P @ [x] of [] \<Rightarrow> a | p # _ \<Rightarrow> f p) = f (hd (P @ [x]))"
  by (cases P) simp_all

lemma parse_typing_separator:
  "isTypingSeparator (parseMacroContext V t c) \<Longrightarrow> currentArgIndex (parseMacroContext V t c) = - 1"
  by (simp add: parseMacroContext_def Let_def case_prod_beta)

lemma map_drop_one: "map (\<lambda>p. g (h p)) (drop 1 xs) = map g (tl (map h xs))"
  by (cases xs) simp_all

lemma parse_unfold:
  assumes scan: "scanFlags V t (skipWhitespace t 0) [] [] = (i, fl, en)"
    and split: "splitLoop i (drop i t) 0 [] i [] [] = (P, S, cp, s)"
  shows "parseMacroContext V t c =
    (let segs = splitOnSep [] (drop i t);
         sp = identifierSplit (hd segs) (S = []);
         typing = (i < length t \<and> int i < c \<and> charAt t (c - 1) = Some colon
                    \<and> charAt t c \<noteq> Some colon \<and> (c < 2 \<or> charAt t (c - 2) \<noteq> Some colon));
         idEnd = i + (length (hd segs) - length (trimStart (hd segs))) + length (fst sp)
     in \<lparr>fullText = t,
         cursorOffset = c,
         paddingBefore = leadingWhitespace t,
         identifier = stripTrailingColons (fst sp),
         identifierStart = i,
         isInFlagsArea = (c \<le> int i),
         flags = fl,
         currentFlag = (if fl \<noteq> [] \<and> int (last en) - 1 \<le> c then Some (last fl) else None),
         args = (if fst (snd sp) \<noteq> [] then [fst (snd sp)] else []) @ map trim (tl segs),
         currentArgIndex =
           (if typing then - 1
            else if S \<noteq> [] then findArgIndex S c 0 (- 1)
            else if fst (snd sp) \<noteq> [] \<or> (snd (snd sp) \<and> int idEnd < c) then 0 else - 1),
         isTypingSeparator = typing,
         hasSpaceAfterIdentifier = snd (snd sp),
         hasSpaceArgContent = (fst (snd sp) \<noteq> []),
         separatorCount = length S,
         isInScopedContent = None,
         scopedMacroName = None\<rparr>)"
proof -
  define x where "x = \<lparr>part_text = cp, part_start = s, part_end = length t\<rparr>"
  define segs where "segs = splitOnSep [] (drop i t)"
  note tx = splitLoop_texts [OF split, of "length t", simplified]
  have texts: "map part_text (P @ [x]) = segs"
    using tx by (simp add: x_def segs_def)
  have r1: "(case P @ [x] of [] \<Rightarrow> [] | p # _ \<Rightarrow> part_text p) = hd segs"
    unfolding case_list_snoc texts [symmetric] by (cases P) simp_all
  have r2: "(case P @ [x] of [] \<Rightarrow> i | p # _ \<Rightarrow> part_start p) = i"
    using tx by (simp add: case_list_snoc x_def)
  have r3: "map (\<lambda>p. trim (part_text p)) (drop 1 (P @ [x])) = map trim (tl segs)"
    unfolding texts [symmetric] by (rule map_drop_one)
  have r4: "drop i t \<noteq> [] \<longleftrightarrow> i < length t"
    by (simp add: not_le)
  show ?thesis
    unfolding parseMacroContext_def scan split sliceFrom_int Let_def case_prod_beta fst_conv snd_conv
      x_def [symmetric] r1 r2 r3 segs_def [symmetric] identifierSplit_def
    by (simp add: r4 cong: if_cong)
qed


lemma identifierSplit_hasSpace:
  "snd (snd (identifierSplit f ns)) \<longleftrightarrow> ns \<and> (\<exists>x \<in> set (trimStart f). isWhitespace x)"
proof (cases "0 < search_ws (trimStart f) \<and> ns")
  case True
  then have ws: "\<exists>x \<in> set (trimStart f). isWhitespace x"
    by (simp add: search_ws_trimStart)
  have "sliceFrom (trimStart f) (search_ws (trimStart f)) \<noteq> []"
    using True ws by (simp add: sliceFrom_search_ws dropWhile_not_ws_nonempty)
  with True ws show ?thesis
    by (simp add: identifierSplit_def Let_def)
next
  case False
  then show ?thesis
    by (auto simp: identifierSplit_def Let_def search_ws_trimStart)
qed

lemma identifierSplit_spaceArg:
  "fst (snd (identifierSplit f ns)) =
     (if ns \<and> (\<exists>x \<in> set (trimStart f). isWhitespace x)
         \<and> spaceArgOf f \<noteq> [] \<and> \<not> startsWithColon (spaceArgOf f)
      then spaceArgOf f else [])"
proof (cases "0 < search_ws (trimStart f) \<and> ns")
  case True
  then have ws: "\<exists>x \<in> set (trimStart f). isWhitespace x"
    by (simp add: search_ws_trimStart)
  have "trimStart (sliceFrom (trimStart f) (search_ws (trimStart f))) = spaceArgOf f"
    using True by (simp add: sliceFrom_search_ws spaceArgOf_def)
  with True ws show ?thesis
    by (simp add: identifierSplit_def Let_def)
next
  case False
  then show ?thesis
    by (auto simp: identifierSplit_def Let_def search_ws_trimStart)
qed

lemma parse_fields:
  assumes scan: "scanFlags V t (skipWhitespace t 0) [] [] = (i, fl, en)"
  shows "flags (parseMacroContext V t c) = fl"
    and "currentFlag (parseMacroContext V t c) =
          (if fl \<noteq> [] \<and> int (last en) - 1 \<le> c then Some (last fl) else None)"
    and "identifierStart (parseMacroContext V t c) = i"
    and "isInFlagsArea (parseMacroContext V t c) \<longleftrightarrow> c \<le> int i"
    and "separatorCount (parseMacroContext V t c) = length (splitOnSep [] (drop i t)) - 1"
    and "hasSpaceAfterIdentifier (parseMacroContext V t c) \<longleftrightarrow>
           length (splitOnSep [] (drop i t)) = 1
           \<and> (\<exists>x \<in> set (trimStart (drop i t)). isWhitespace x)"
    and "hasSpaceArgContent (parseMacroContext V t c) \<longleftrightarrow>
           hasSpaceAfterIdentifier (parseMacroContext V t c)
           \<and> spaceArgOf (drop i t) \<noteq> [] \<and> \<not> startsWithColon (spaceArgOf (drop i t))"
    and "args (parseMacroContext V t c) =
           (if hasSpaceArgContent (parseMacroContext V t c) then [spaceArgOf (drop i t)] else [])
           @ map trim (tl (splitOnSep [] (drop i t)))"
    and "- 1 \<le> currentArgIndex (parseMacroContext V t c)"
    and "currentArgIndex (parseMacroContext V t c)
           \<le> (if separatorCount (parseMacroContext V t c) = 0 then 0
               else int (separatorCount (parseMacroContext V t c)) - 1)"
proof -
  obtain P S cp s where split: "splitLoop i (drop i t) 0 [] i [] [] = (P, S, cp, s)"
    by (cases "splitLoop i (drop i t) 0 [] i [] []") auto
  define segs where "segs = splitOnSep [] (drop i t)"
  note tx = splitLoop_texts [OF split, of "length t", simplified]
  have nS: "length S = length segs - 1"
    unfolding segs_def using tx by linarith
  have segs_ne: "segs \<noteq> []"
    by (simp add: segs_def splitOnSep_nonempty)
  have S_iff: "S = [] \<longleftrightarrow> length segs = 1"
    using nS segs_ne by (cases segs) auto
  have single: "S = [] \<Longrightarrow> hd segs = drop i t"
    using S_iff splitOnSep_single [of "[]" "drop i t"] by (simp add: segs_def)
  note u = parse_unfold [OF scan split, of c, unfolded Let_def, folded segs_def]
  show "flags (parseMacroContext V t c) = fl"
    by (subst u) simp
  show "currentFlag (parseMacroContext V t c) =
          (if fl \<noteq> [] \<and> int (last en) - 1 \<le> c then Some (last fl) else None)"
    by (subst u) simp
  show "identifierStart (parseMacroContext V t c) = i"
    by (subst u) simp
  show "isInFlagsArea (parseMacroContext V t c) \<longleftrightarrow> c \<le> int i"
    by (subst u) simp
  have sc: "separatorCount (parseMacroContext V t c) = length S"
    by (subst u) simp
  show "separatorCount (parseMacroContext V t c) = length (splitOnSep [] (drop i t)) - 1"
    using sc nS by (simp add: segs_def)
  have hA: "hasSpaceAfterIdentifier (parseMacroContext V t c) \<longleftrightarrow>
      snd (snd (identifierSplit (hd segs) (S = [])))"
    by (subst u) simp
  have hB: "hasSpaceArgContent (parseMacroContext V t c) \<longleftrightarrow>
      fst (snd (identifierSplit (hd segs) (S = []))) \<noteq> []"
    by (subst u) simp
  have hC: "args (parseMacroContext V t c) =
      (if fst (snd (identifierSplit (hd segs) (S = []))) \<noteq> []
       then [fst (snd (identifierSplit (hd segs) (S = [])))] else []) @ map trim (tl segs)"
    by (subst u) simp
  show A: "hasSpaceAfterIdentifier (parseMacroContext V t c) \<longleftrightarrow>
           length (splitOnSep [] (drop i t)) = 1
           \<and> (\<exists>x \<in> set (trimStart (drop i t)). isWhitespace x)"
    using single S_iff by (auto simp: hA identifierSplit_hasSpace segs_def)
  show B: "hasSpaceArgContent (parseMacroContext V t c) \<longleftrightarrow>
           hasSpaceAfterIdentifier (parseMacroContext V t c)
           \<and> spaceArgOf (drop i t) \<noteq> [] \<and> \<not> startsWithColon (spaceArgOf (drop i t))"
    using single by (auto simp: hA hB identifierSplit_hasSpace identifierSplit_spaceArg)
  show "args (parseMacroContext V t c) =
           (if hasSpaceArgContent (parseMacroContext V t c) then [spaceArgOf (drop i t)] else [])
           @ map trim (tl (splitOnSep [] (drop i t)))"
    using single by (auto simp: hB hC identifierSplit_spaceArg segs_def)
  have fb: "- 1 \<le> findArgIndex S c 0 (- 1) \<and> findArgIndex S c 0 (- 1) \<le> int (length S) - 1"
    by (rule findArgIndex_bounds) simp_all
  define typing where "typing \<longleftrightarrow> i < length t \<and> int i < c \<and> charAt t (c - 1) = Some colon
      \<and> charAt t c \<noteq> Some colon \<and> (c < 2 \<or> charAt t (c - 2) \<noteq> Some colon)"
  define other where "other = (if fst (snd (identifierSplit (hd segs) (S = []))) \<noteq> []
      \<or> (snd (snd (identifierSplit (hd segs) (S = [])))
          \<and> int (i + (length (hd segs) - length (trimStart (hd segs)))
                 + length (fst (identifierSplit (hd segs) (S = [])))) < c)
      then 0 else (- 1 :: int))"
  have ci: "currentArgIndex (parseMacroContext V t c) =
      (if typing then - 1 else if S \<noteq> [] then findArgIndex S c 0 (- 1) else other)"
    unfolding typing_def other_def by (subst u) simp
  have ob: "- 1 \<le> other" "other \<le> 0"
    by (simp_all add: other_def)
  show "- 1 \<le> currentArgIndex (parseMacroContext V t c)"
    using fb ob by (simp add: ci)
  show "currentArgIndex (parseMacroContext V t c)
           \<le> (if separatorCount (parseMacroContext V t c) = 0 then 0
               else int (separatorCount (parseMacroContext V t c)) - 1)"
    using fb ob by (simp add: ci sc)
qed

lemma skipWhitespace_stop: "i < length t \<Longrightarrow> \<not> isWhitespace (t ! i) \<Longrightarrow> skipWhitespace t i = i"
  by (subst skipWhitespace.simps) simp

lemma parse_scan_cong:
  "scanFlags V t (skipWhitespace t 0) [] [] = scanFlags V' t (skipWhitespace t 0) [] []
   \<Longrightarrow> parseMacroContext V t = parseMacroContext V' t"
  by (simp add: parseMacroContext_def)

lemma parse_no_flag:
  assumes "t \<noteq> []" "\<not> isWhitespace (hd t)" "hd t \<notin> V"
  shows "parseMacroContext V t = parseMacroContext {} t"
proof -
  from assms have 0: "0 < length t" "\<not> isWhitespace (t ! 0)" "t ! 0 \<notin> V"
    by (simp_all add: hd_conv_nth)
  have sk: "skipWhitespace t 0 = 0"
    using 0 by (simp add: skipWhitespace_stop)
  have "scanFlags V t 0 [] [] = (0, [], [])"
    using 0 by (simp add: scanFlags_not_flag)
  moreover have "scanFlags {} t 0 [] [] = (0, [], [])"
    using 0 by (simp add: scanFlags_not_flag)
  ultimately show ?thesis
    by (intro parse_scan_cong) (simp add: sk)
qed

lemma roll_colon:
  "isTypingSeparator (parseMacroContext {} (js ''roll:'') 5)"
  "currentArgIndex (parseMacroContext {} (js ''roll:'') 5) = - 1"
  by code_simp+

lemma hd_js: "hd (js (c # cs)) = jsc c" "js (c # cs) \<noteq> []"
  by (simp_all add: js_def)

lemma not_ws_r: "\<not> isWhitespace (jsc CHR ''r'')"
  by (simp add: isWhitespace_def jsc_def)


section \<open>The claims about the parser\<close>

text \<open>
  Claim C2. Whenever the context returned by \<open>parseMacroContext\<close> has \<open>isTypingSeparator\<close>
  set, its \<open>currentArgIndex\<close> is \<open>-1\<close>, for every text, every cursor offset and every set of
  flag symbols. In particular \<open>parseMacroContext("roll:", 5)\<close> has \<open>isTypingSeparator\<close> set and
  \<open>currentArgIndex = -1\<close>; the example needs that \<open>r\<close> is not a flag symbol.
\<close>

theorem typing_separator_excludes_argument:
  "(isTypingSeparator (parseMacroContext V t c) \<longrightarrow> currentArgIndex (parseMacroContext V t c) = - 1)
   \<and> (jsc CHR ''r'' \<notin> V \<longrightarrow>
        isTypingSeparator (parseMacroContext V (js ''roll:'') 5)
        \<and> currentArgIndex (parseMacroContext V (js ''roll:'') 5) = - 1)"
proof (intro conjI impI)
  assume "isTypingSeparator (parseMacroContext V t c)"
  then show "currentArgIndex (parseMacroContext V t c) = - 1"
    by (rule parse_typing_separator)
next
  assume "jsc CHR ''r'' \<notin> V"
  then have eq: "parseMacroContext V (js ''roll:'') = parseMacroContext {} (js ''roll:'')"
    by (intro parse_no_flag) (simp_all add: hd_js not_ws_r)
  show "isTypingSeparator (parseMacroContext V (js ''roll:'') 5)"
    by (simp only: eq roll_colon)
  show "currentArgIndex (parseMacroContext V (js ''roll:'') 5) = - 1"
    by (simp only: eq roll_colon)
qed

theorem typing_separator_excludes_argument_witness:
  "jsc CHR ''r'' \<notin> {jsc CHR ''!'', jsc CHR ''?''}
   \<and> isTypingSeparator (parseMacroContext {jsc CHR ''!'', jsc CHR ''?''} (js ''roll:'') 5)
   \<and> currentArgIndex (parseMacroContext {jsc CHR ''!'', jsc CHR ''?''} (js ''roll:'') 5) = - 1"
proof -
  have h: "jsc CHR ''r'' \<notin> {jsc CHR ''!'', jsc CHR ''?''}"
    by (simp add: jsc_def)
  from typing_separator_excludes_argument [of "{jsc CHR ''!'', jsc CHR ''?''}" "js ''roll:''" 5] h
  show ?thesis by blast
qed

end
